theory Spec2Isabelle
  imports Complex_Main "HOL-Library.List_Lexorder" "HOL-Library.Char_ord"
begin

section \<open>Python values used by the leaderboard\<close>

text \<open>
  A gap is a Python \<open>float\<close>. The leaderboard never computes with gaps, it only
  compares them, so a finite float is represented by the real number it denotes
  (\<open>0.0\<close> and \<open>-0.0\<close> compare equal and are both \<open>Fin 0\<close>). The two infinities
  and NaN are kept apart. A NaN carries the identity of its float object: comparing
  tuples, Python first tests two components with \<open>is\<close> and only then with \<open>==\<close>,
  so a NaN object is "equal" to itself inside a tuple although \<open>nan == nan\<close> is false.
\<close>

datatype pyfloat = NInf | Fin real | PInf | NaN nat

fun is_nan :: "pyfloat \<Rightarrow> bool" where
  "is_nan (NaN i) = True"
| "is_nan NInf = False"
| "is_nan (Fin x) = False"
| "is_nan PInf = False"

text \<open>\<open>a < b\<close> on floats: false as soon as one side is NaN.\<close>

fun float_lt :: "pyfloat \<Rightarrow> pyfloat \<Rightarrow> bool" where
  "float_lt (Fin x) (Fin y) = (x < y)"
| "float_lt NInf (Fin y) = True"
| "float_lt NInf PInf = True"
| "float_lt (Fin x) PInf = True"
| "float_lt a b = False"

text \<open>\<open>a == b\<close> on floats: false as soon as one side is NaN, also for one and the same object.\<close>

fun float_eq :: "pyfloat \<Rightarrow> pyfloat \<Rightarrow> bool" where
  "float_eq (Fin x) (Fin y) = (x = y)"
| "float_eq NInf NInf = True"
| "float_eq PInf PInf = True"
| "float_eq a b = False"

text \<open>
  The test \<open>a is b or a == b\<close> that tuple comparison applies to each pair of components.
  Identity is only modelled for NaN objects, where it matters; on all other floats it is
  subsumed by \<open>==\<close>.
\<close>

definition same_or_eq :: "pyfloat \<Rightarrow> pyfloat \<Rightarrow> bool" where
  "same_or_eq a b = (a = b \<or> float_eq a b)"

type_synonym entry = "pyfloat \<times> string"

text \<open>
  \<open>(g1, n1) < (g2, n2)\<close> on tuples: the first position where the components differ
  decides; two tuples that agree everywhere have the same length, so neither is smaller.
  Strings are compared lexicographically, character by character.
\<close>

definition tuple_lt :: "entry \<Rightarrow> entry \<Rightarrow> bool" where
  "tuple_lt a b =
     (if \<not> same_or_eq (fst a) (fst b) then float_lt (fst a) (fst b)
      else if snd a \<noteq> snd b then snd a < snd b
      else False)"

text \<open>\<open>(g1, n1) <= (g2, n2)\<close> on tuples, by the same rule.\<close>

definition tuple_le :: "entry \<Rightarrow> entry \<Rightarrow> bool" where
  "tuple_le a b =
     (if \<not> same_or_eq (fst a) (fst b)
      then float_lt (fst a) (fst b) \<or> float_eq (fst a) (fst b)
      else if snd a \<noteq> snd b then snd a \<le> snd b
      else True)"

section \<open>The \<open>bisect\<close> module\<close>

text \<open>
  \<open>bisect_left(a, x)\<close> and \<open>insort(a, x)\<close> of the standard library, with the
  comparison \<open><\<close> of the elements as a parameter. Both searches keep
  \<open>lo \<le> hi \<le> len(a)\<close>, so \<open>a[mid]\<close> is always in range.
\<close>

function bisect_left :: "('a \<Rightarrow> 'a \<Rightarrow> bool) \<Rightarrow> 'a list \<Rightarrow> 'a \<Rightarrow> nat \<Rightarrow> nat \<Rightarrow> nat" where
  "bisect_left lt a x lo hi =
     (if lo < hi
      then (if lt (a ! ((lo + hi) div 2)) x
            then bisect_left lt a x ((lo + hi) div 2 + 1) hi
            else bisect_left lt a x lo ((lo + hi) div 2))
      else lo)"
  by pat_completeness auto
termination
  by (relation "measure (\<lambda>(lt, a, x, lo, hi). hi - lo)") auto

function bisect_right :: "('a \<Rightarrow> 'a \<Rightarrow> bool) \<Rightarrow> 'a list \<Rightarrow> 'a \<Rightarrow> nat \<Rightarrow> nat \<Rightarrow> nat" where
  "bisect_right lt a x lo hi =
     (if lo < hi
      then (if lt x (a ! ((lo + hi) div 2))
            then bisect_right lt a x lo ((lo + hi) div 2)
            else bisect_right lt a x ((lo + hi) div 2 + 1) hi)
      else lo)"
  by pat_completeness auto
termination
  by (relation "measure (\<lambda>(lt, a, x, lo, hi). hi - lo)") auto

text \<open>\<open>a.insert(i, x)\<close>; an index beyond the end appends.\<close>

definition list_insert :: "'a list \<Rightarrow> nat \<Rightarrow> 'a \<Rightarrow> 'a list" where
  "list_insert a i x = take i a @ x # drop i a"

text \<open>\<open>insort\<close> is \<open>insort_right\<close>: insert after every element that is not greater.\<close>

definition insort_right :: "('a \<Rightarrow> 'a \<Rightarrow> bool) \<Rightarrow> 'a list \<Rightarrow> 'a \<Rightarrow> 'a list" where
  "insort_right lt a x = list_insert a (bisect_right lt a x 0 (length a)) x"

datatype error = IndexError

text \<open>\<open>a.pop(i)\<close> for \<open>i \<ge> 0\<close>, keeping the list that remains; out of range it raises.\<close>

definition pop :: "'a list \<Rightarrow> nat \<Rightarrow> error + 'a list" where
  "pop a i = (if i < length a then Inr (take i a @ drop (Suc i) a) else Inl IndexError)"

section \<open>The class \<open>Leaderboard\<close>\<close>

record leaderboard =
  drivers :: "entry list"
  driver_map :: "string \<rightharpoonup> pyfloat"

definition init :: leaderboard where
  "init = \<lparr>drivers = [], driver_map = Map.empty\<rparr>"

text \<open>
  \<open>update\<close>: the old entry is looked up with \<open>bisect_left\<close> and popped, then the new
  one is inserted and the map is set. The only statement that can raise is the
  \<open>pop\<close>, before anything has been changed.
\<close>

definition update :: "leaderboard \<Rightarrow> string \<Rightarrow> pyfloat \<Rightarrow> error + leaderboard" where
  "update s name gap =
     (case (case driver_map s name of
              None \<Rightarrow> Inr (drivers s)
            | Some old_gap \<Rightarrow>
                pop (drivers s)
                  (bisect_left tuple_lt (drivers s) (old_gap, name) 0 (length (drivers s))))
      of Inl e \<Rightarrow> Inl e
       | Inr ds \<Rightarrow>
           Inr \<lparr>drivers = insort_right tuple_lt ds (gap, name),
                driver_map = (driver_map s)(name \<mapsto> gap)\<rparr>)"

definition get_rank :: "leaderboard \<Rightarrow> string \<Rightarrow> nat option" where
  "get_rank s name =
     (case driver_map s name of
        None \<Rightarrow> None
      | Some gap \<Rightarrow>
          Some (bisect_left tuple_lt (drivers s) (gap, name) 0 (length (drivers s)) + 1))"

text \<open>The slice \<open>a[:k]\<close> for an integer \<open>k\<close>; a negative \<open>k\<close> counts from the end.\<close>

definition slice_to :: "'a list \<Rightarrow> int \<Rightarrow> 'a list" where
  "slice_to a k =
     (if k < 0 then take (nat (int (length a) + k)) a else take (nat k) a)"

definition top_k :: "leaderboard \<Rightarrow> int \<Rightarrow> (nat \<times> string \<times> pyfloat) list" where
  "top_k s k =
     map (\<lambda>(i, (gap, name)). (i + 1, name, gap)) (enumerate 0 (slice_to (drivers s) k))"

section \<open>Removal, in the interactive shell\<close>

text \<open>
  The loop of \<open>module_4_remove_driver\<close> that looks for the entry: the first index
  \<open>i\<close> with \<open>n == name and g == gap\<close>, or \<open>None\<close>. Here \<open>g == gap\<close> compares
  two floats directly.
\<close>

primrec find_idx :: "entry list \<Rightarrow> string \<Rightarrow> pyfloat \<Rightarrow> nat \<Rightarrow> nat option" where
  "find_idx [] name gap i = None"
| "find_idx (e # es) name gap i =
     (if snd e = name \<and> float_eq (fst e) gap then Some i else find_idx es name gap (i + 1))"

datatype outcome = NoDrivers | NotFound | Cancelled | Removed | ErrorRemoving

text \<open>
  \<open>module_4_remove_driver\<close>, with the two lines read from the console as arguments:
  the driver code (after \<open>upper().strip()\<close>) and the confirmation (after
  \<open>lower()\<close>). The function returns nothing; the message it prints is the outcome,
  and only \<open>Removed\<close> reports success. Printing the current drivers calls
  \<open>get_rank\<close>, which changes nothing.
\<close>

definition module_4_remove_driver ::
  "leaderboard \<Rightarrow> string \<Rightarrow> string \<Rightarrow> error + (outcome \<times> leaderboard)" where
  "module_4_remove_driver s name confirm =
     (if dom (driver_map s) = {} then Inr (NoDrivers, s)
      else case driver_map s name of
        None \<Rightarrow> Inr (NotFound, s)
      | Some gap \<Rightarrow>
          if confirm \<noteq> ''y'' then Inr (Cancelled, s)
          else (case find_idx (drivers s) name gap 0 of
                  None \<Rightarrow> Inr (ErrorRemoving, s)
                | Some idx \<Rightarrow>
                    (case pop (drivers s) idx of
                       Inl e \<Rightarrow> Inl e
                     | Inr ds \<Rightarrow>
                         Inr (Removed,
                              \<lparr>drivers = ds, driver_map = (driver_map s)(name := None)\<rparr>))))"

text \<open>
  How often the body of that loop runs: once for every entry up to and including the
  one where it breaks, once for every entry when it never breaks.
\<close>

primrec find_idx_iters :: "entry list \<Rightarrow> string \<Rightarrow> pyfloat \<Rightarrow> nat" where
  "find_idx_iters [] name gap = 0"
| "find_idx_iters (e # es) name gap =
     (if snd e = name \<and> float_eq (fst e) gap then 1 else 1 + find_idx_iters es name gap)"

section \<open>Sequences of operations\<close>

text \<open>
  The two operations that change the index: \<open>update\<close>, and a removal that the user
  confirms with \<open>y\<close>. Whatever a removal prints, the run goes on with the state it
  leaves; an exception ends the run.
\<close>

datatype op = Upsert string pyfloat | Remove string

fun apply_op :: "leaderboard \<Rightarrow> op \<Rightarrow> error + leaderboard" where
  "apply_op s (Upsert name gap) = update s name gap"
| "apply_op s (Remove name) =
     (case module_4_remove_driver s name ''y'' of
        Inl e \<Rightarrow> Inl e
      | Inr (out, s') \<Rightarrow> Inr s')"

fun run :: "leaderboard \<Rightarrow> op list \<Rightarrow> error + leaderboard" where
  "run s [] = Inr s"
| "run s (x # xs) = (case apply_op s x of Inl e \<Rightarrow> Inl e | Inr s' \<Rightarrow> run s' xs)"

fun nan_free :: "op \<Rightarrow> bool" where
  "nan_free (Upsert name gap) = (\<not> is_nan gap)"
| "nan_free (Remove name) = True"

section \<open>The invariants of the index\<close>

text \<open>
  Ordering: the list \<open>drivers\<close> is non-decreasing for the comparison \<open><=\<close> of its
  tuples.
\<close>

definition sorted_inv :: "leaderboard \<Rightarrow> bool" where
  "sorted_inv s = sorted_wrt tuple_le (drivers s)"

text \<open>
  Bijection: the names in \<open>drivers\<close> are the keys of \<open>driver_map\<close>, no name occurs
  twice in \<open>drivers\<close>, and the gap paired with a name in \<open>drivers\<close> equals (\<open>==\<close>)
  the gap that \<open>driver_map\<close> holds for it.
\<close>

definition map_inv :: "leaderboard \<Rightarrow> bool" where
  "map_inv s =
     (snd ` set (drivers s) = dom (driver_map s) \<and>
      distinct (map snd (drivers s)) \<and>
      (\<forall>e \<in> set (drivers s).
         case driver_map s (snd e) of None \<Rightarrow> False | Some g \<Rightarrow> float_eq (fst e) g))"

text \<open>The number of entries that are strictly smaller than a given one.\<close>

definition count_before :: "leaderboard \<Rightarrow> entry \<Rightarrow> nat" where
  "count_before s x = length (filter (\<lambda>e. tuple_lt e x) (drivers s))"

text \<open>
  What a query returns as row \<open>i\<close> (counted from 0) of the leaderboard: the rank
  \<open>i + 1\<close>, then name and gap of the \<open>i\<close>-th entry of \<open>drivers\<close>.
\<close>

definition row :: "leaderboard \<Rightarrow> nat \<Rightarrow> nat \<times> string \<times> pyfloat" where
  "row s i = (i + 1, snd (drivers s ! i), fst (drivers s ! i))"

section \<open>Example states\<close>

text \<open>
  The standings of the demo in \<open>leaderboard_core.py\<close> and the state they lead to.
  The decimal literals stand for the floats nearest to them, which are ordered as the
  literals are.
\<close>

definition demo_ops :: "op list" where
  "demo_ops = [Upsert ''LEC'' (Fin 0.0), Upsert ''SAI'' (Fin 11.850), Upsert ''VER'' (Fin 12.252),
               Upsert ''PER'' (Fin 14.777), Upsert ''BOT'' (Fin 16.347)]"

definition demo :: leaderboard where
  "demo = \<lparr>drivers = [(Fin 0.0, ''LEC''), (Fin 11.850, ''SAI''), (Fin 12.252, ''VER''),
                      (Fin 14.777, ''PER''), (Fin 16.347, ''BOT'')],
            driver_map = [''LEC'' \<mapsto> Fin 0.0, ''SAI'' \<mapsto> Fin 11.850, ''VER'' \<mapsto> Fin 12.252,
                          ''PER'' \<mapsto> Fin 14.777, ''BOT'' \<mapsto> Fin 16.347]\<rparr>"

text \<open>The demo after \<open>update('VER', 11.500)\<close>.\<close>

definition overtake :: leaderboard where
  "overtake = \<lparr>drivers = [(Fin 0.0, ''LEC''), (Fin 11.500, ''VER''), (Fin 11.850, ''SAI''),
                          (Fin 14.777, ''PER''), (Fin 16.347, ''BOT'')],
                driver_map = [''LEC'' \<mapsto> Fin 0.0, ''SAI'' \<mapsto> Fin 11.850, ''VER'' \<mapsto> Fin 11.500,
                              ''PER'' \<mapsto> Fin 14.777, ''BOT'' \<mapsto> Fin 16.347]\<rparr>"

text \<open>
  Three updates, the second with a NaN (the shell accepts the input \<open>nan\<close>, since
  \<open>nan < 0\<close> is false), the state they lead to, and the state after one more
  \<open>update('LEC', 0.0)\<close>.
\<close>

definition nan_ops :: "op list" where
  "nan_ops = [Upsert ''SAI'' (Fin 3), Upsert ''VER'' (NaN 0), Upsert ''LEC'' (Fin 1)]"

definition unsorted :: leaderboard where
  "unsorted = \<lparr>drivers = [(Fin 3, ''SAI''), (NaN 0, ''VER''), (Fin 1, ''LEC'')],
                driver_map = [''SAI'' \<mapsto> Fin 3, ''VER'' \<mapsto> NaN 0, ''LEC'' \<mapsto> Fin 1]\<rparr>"

definition broken :: leaderboard where
  "broken = \<lparr>drivers = [(NaN 0, ''VER''), (Fin 0, ''LEC''), (Fin 1, ''LEC'')],
              driver_map = [''SAI'' \<mapsto> Fin 3, ''VER'' \<mapsto> NaN 0, ''LEC'' \<mapsto> Fin 0]\<rparr>"

text \<open>The state that the three updates lead to, after \<open>update('LEC', 1.0)\<close>.\<close>

definition doubled :: leaderboard where
  "doubled = \<lparr>drivers = [(NaN 0, ''VER''), (Fin 1, ''LEC''), (Fin 1, ''LEC'')],
               driver_map = [''SAI'' \<mapsto> Fin 3, ''VER'' \<mapsto> NaN 0, ''LEC'' \<mapsto> Fin 1]\<rparr>"

text \<open>The demo after \<open>update('VER', nan)\<close>.\<close>

definition nan_demo :: leaderboard where
  "nan_demo = \<lparr>drivers = [(Fin 0.0, ''LEC''), (Fin 11.850, ''SAI''), (Fin 14.777, ''PER''),
                          (Fin 16.347, ''BOT''), (NaN 0, ''VER'')],
                driver_map = [''LEC'' \<mapsto> Fin 0.0, ''SAI'' \<mapsto> Fin 11.850, ''VER'' \<mapsto> NaN 0,
                              ''PER'' \<mapsto> Fin 14.777, ''BOT'' \<mapsto> Fin 16.347]\<rparr>"

section \<open>The order on entries and the two binary searches\<close>

declare bisect_left.simps [simp del] bisect_right.simps [simp del]

lemma float_eq_iff: "float_eq a b \<longleftrightarrow> a = b \<and> \<not> is_nan a"
  by (cases a; cases b) auto

lemma same_or_eq_iff: "same_or_eq a b \<longleftrightarrow> a = b"
  by (auto simp: same_or_eq_def float_eq_iff)

lemma float_lt_irrefl: "\<not> float_lt a a"
  by (cases a) auto

lemma float_lt_asym: "float_lt a b \<Longrightarrow> \<not> float_lt b a"
  by (cases a; cases b) auto

lemma float_lt_trans: "float_lt a b \<Longrightarrow> float_lt b c \<Longrightarrow> float_lt a c"
  by (cases a; cases b; cases c) auto

lemma float_lt_total: "\<not> is_nan a \<Longrightarrow> \<not> is_nan b \<Longrightarrow> float_lt a b \<or> a = b \<or> float_lt b a"
  by (cases a; cases b) auto

lemma float_lt_nan: "is_nan a \<Longrightarrow> \<not> float_lt a b \<and> \<not> float_lt b a"
  by (cases a; cases b) auto

lemma tuple_lt_iff:
  "tuple_lt a b \<longleftrightarrow> (if fst a = fst b then snd a < snd b else float_lt (fst a) (fst b))"
  by (auto simp: tuple_lt_def same_or_eq_iff)

lemma tuple_le_iff: "tuple_le a b \<longleftrightarrow> tuple_lt a b \<or> a = b"
  by (cases a; cases b) (auto simp: tuple_le_def tuple_lt_def same_or_eq_iff float_eq_iff)

lemma tuple_lt_irrefl: "\<not> tuple_lt a a"
  by (simp add: tuple_lt_iff)

lemma tuple_lt_asym: "tuple_lt a b \<Longrightarrow> \<not> tuple_lt b a"
  by (auto simp: tuple_lt_iff float_lt_irrefl dest: float_lt_asym split: if_splits)

lemma tuple_lt_trans: "tuple_lt a b \<Longrightarrow> tuple_lt b c \<Longrightarrow> tuple_lt a c"
  by (auto simp: tuple_lt_iff float_lt_irrefl dest: float_lt_asym float_lt_trans split: if_splits)

lemma tuple_lt_total:
  "\<not> is_nan (fst a) \<Longrightarrow> \<not> is_nan (fst b) \<Longrightarrow> tuple_lt a b \<or> a = b \<or> tuple_lt b a"
  using float_lt_total [of "fst a" "fst b"]
  by (cases a; cases b) (auto simp: tuple_lt_iff)

lemma bisect_left_index:
  "lo \<le> p \<Longrightarrow> p \<le> hi \<Longrightarrow> hi \<le> length a \<Longrightarrow>
   (\<forall>i<p. lt (a ! i) x) \<Longrightarrow> (\<forall>i. p \<le> i \<and> i < length a \<longrightarrow> \<not> lt (a ! i) x) \<Longrightarrow>
   bisect_left lt a x lo hi = p"
proof (induction lt a x lo hi rule: bisect_left.induct)
  case (1 lt a x lo hi)
  let ?mid = "(lo + hi) div 2"
  show ?case
  proof (cases "lo < hi")
    case False
    with "1.prems" show ?thesis by (simp add: bisect_left.simps)
  next
    case True
    then have mid: "lo \<le> ?mid" "?mid < hi" by auto
    show ?thesis
    proof (cases "lt (a ! ?mid) x")
      case lt: True
      have "?mid < p"
      proof (rule ccontr)
        assume "\<not> ?mid < p"
        with mid "1.prems" have "\<not> lt (a ! ?mid) x" by auto
        with lt show False by simp
      qed
      then have "bisect_left lt a x (?mid + 1) hi = p"
        using "1.IH"(1) [OF True lt] "1.prems" by simp
      with True lt show ?thesis by (subst bisect_left.simps) simp
    next
      case nlt: False
      have "p \<le> ?mid"
      proof (rule ccontr)
        assume "\<not> p \<le> ?mid"
        with "1.prems" have "lt (a ! ?mid) x" by auto
        with nlt show False by simp
      qed
      then have "bisect_left lt a x lo ?mid = p"
        using "1.IH"(2) [OF True nlt] "1.prems" mid by simp
      with True nlt show ?thesis by (subst bisect_left.simps) simp
    qed
  qed
qed

lemma bisect_right_index:
  "lo \<le> p \<Longrightarrow> p \<le> hi \<Longrightarrow> hi \<le> length a \<Longrightarrow>
   (\<forall>i<p. \<not> lt x (a ! i)) \<Longrightarrow> (\<forall>i. p \<le> i \<and> i < length a \<longrightarrow> lt x (a ! i)) \<Longrightarrow>
   bisect_right lt a x lo hi = p"
proof (induction lt a x lo hi rule: bisect_right.induct)
  case (1 lt a x lo hi)
  let ?mid = "(lo + hi) div 2"
  show ?case
  proof (cases "lo < hi")
    case False
    with "1.prems" show ?thesis by (simp add: bisect_right.simps)
  next
    case True
    then have mid: "lo \<le> ?mid" "?mid < hi" by auto
    show ?thesis
    proof (cases "lt x (a ! ?mid)")
      case lt: True
      have "p \<le> ?mid"
      proof (rule ccontr)
        assume "\<not> p \<le> ?mid"
        with "1.prems" have "\<not> lt x (a ! ?mid)" by auto
        with lt show False by simp
      qed
      then have "bisect_right lt a x lo ?mid = p"
        using "1.IH"(1) [OF True lt] "1.prems" mid by simp
      with True lt show ?thesis by (subst bisect_right.simps) simp
    next
      case nlt: False
      have "?mid < p"
      proof (rule ccontr)
        assume "\<not> ?mid < p"
        with mid "1.prems" have "lt x (a ! ?mid)" by auto
        with nlt show False by simp
      qed
      then have "bisect_right lt a x (?mid + 1) hi = p"
        using "1.IH"(2) [OF True nlt] "1.prems" by simp
      with True nlt show ?thesis by (subst bisect_right.simps) simp
    qed
  qed
qed

lemma bisect_left_append:
  assumes "\<forall>e\<in>set xs. lt e x" and "\<forall>e\<in>set ys. \<not> lt e x"
  shows "bisect_left lt (xs @ ys) x 0 (length (xs @ ys)) = length xs"
proof (rule bisect_left_index)
  show "\<forall>i<length xs. lt ((xs @ ys) ! i) x"
    using assms(1) by (simp add: nth_append)
  show "\<forall>i. length xs \<le> i \<and> i < length (xs @ ys) \<longrightarrow> \<not> lt ((xs @ ys) ! i) x"
    using assms(2) by (auto simp: nth_append)
qed simp_all

lemma bisect_right_append:
  assumes "\<forall>e\<in>set xs. \<not> lt x e" and "\<forall>e\<in>set ys. lt x e"
  shows "bisect_right lt (xs @ ys) x 0 (length (xs @ ys)) = length xs"
proof (rule bisect_right_index)
  show "\<forall>i<length xs. \<not> lt x ((xs @ ys) ! i)"
    using assms(1) by (simp add: nth_append)
  show "\<forall>i. length xs \<le> i \<and> i < length (xs @ ys) \<longrightarrow> lt x ((xs @ ys) ! i)"
    using assms(2) by (auto simp: nth_append)
qed simp_all

section \<open>Consequences of the invariants\<close>

lemma sorted_strict:
  assumes "sorted_wrt tuple_le a" and "distinct (map snd a)"
  shows "sorted_wrt tuple_lt a"
  using assms
  by (induction a) (auto simp: tuple_le_iff)

lemma sorted_lt_le: "sorted_wrt tuple_lt a \<Longrightarrow> sorted_wrt tuple_le a"
  by (rule sorted_wrt_mono_rel [of a tuple_lt]) (auto simp: tuple_le_iff)

lemma strict_inv:
  assumes "sorted_inv s" and "map_inv s"
  shows "sorted_wrt tuple_lt (drivers s)"
  using assms by (auto simp: sorted_inv_def map_inv_def intro: sorted_strict)

lemma map_inv_lookup:
  assumes "map_inv s" and "e \<in> set (drivers s)"
  shows "driver_map s (snd e) = Some (fst e) \<and> \<not> is_nan (fst e)"
  using assms by (auto simp: map_inv_def float_eq_iff split: option.splits)

lemma map_inv_member:
  assumes "map_inv s" and "driver_map s name = Some g"
  shows "(g, name) \<in> set (drivers s)"
proof -
  from assms have "name \<in> snd ` set (drivers s)" by (auto simp: map_inv_def)
  then obtain e where e: "e \<in> set (drivers s)" "snd e = name" by auto
  with map_inv_lookup [OF assms(1) e(1)] assms(2) have "fst e = g" by simp
  with e show ?thesis by (cases e) auto
qed

text \<open>A strictly sorted list with distinct names, cut at one of its entries.\<close>

lemma split_at_entry:
  assumes "sorted_wrt tuple_lt a" and "distinct (map snd a)" and "x \<in> set a"
  obtains xs ys where "a = xs @ x # ys"
    and "\<forall>e\<in>set xs. tuple_lt e x" and "\<forall>e\<in>set ys. tuple_lt x e"
    and "snd x \<notin> snd ` set xs" and "snd x \<notin> snd ` set ys"
proof -
  from assms(3) obtain xs ys where a: "a = xs @ x # ys" by (auto dest: split_list)
  show thesis
  proof (rule that [OF a])
    show "\<forall>e\<in>set xs. tuple_lt e x" using assms(1) by (auto simp: a sorted_wrt_append)
    show "\<forall>e\<in>set ys. tuple_lt x e" using assms(1) by (auto simp: a sorted_wrt_append)
    show "snd x \<notin> snd ` set xs" using assms(2) by (auto simp: a)
    show "snd x \<notin> snd ` set ys" using assms(2) by (auto simp: a)
  qed
qed

lemma bisect_left_finds:
  assumes "\<forall>e\<in>set xs. tuple_lt e x" and "\<forall>e\<in>set ys. tuple_lt x e"
  shows "bisect_left tuple_lt (xs @ x # ys) x 0 (length (xs @ x # ys)) = length xs"
  using assms by (intro bisect_left_append) (auto simp: tuple_lt_irrefl dest: tuple_lt_asym)

lemma count_before_split:
  assumes "\<forall>e\<in>set xs. tuple_lt e x" and "\<forall>e\<in>set ys. tuple_lt x e"
  shows "length (filter (\<lambda>e. tuple_lt e x) (xs @ x # ys)) = length xs"
proof -
  have "filter (\<lambda>e. tuple_lt e x) xs = xs" using assms(1) by (simp add: filter_id_conv)
  moreover have "filter (\<lambda>e. tuple_lt e x) ys = []"
    using assms(2) by (auto simp: filter_empty_conv dest: tuple_lt_asym)
  ultimately show ?thesis by (simp add: tuple_lt_irrefl)
qed

section \<open>Popping and inserting\<close>

lemma pop_split: "pop (xs @ x # ys) (length xs) = Inr (xs @ ys)"
  by (simp add: pop_def)

lemma insort_right_split:
  assumes "\<forall>e\<in>set xs. \<not> lt x e" and "\<forall>e\<in>set ys. lt x e"
  shows "insort_right lt (xs @ ys) x = xs @ x # ys"
  using assms bisect_right_append [where xs=xs and ys=ys and lt=lt and x=x]
  by (simp add: insort_right_def list_insert_def)

text \<open>Where \<open>insort\<close> puts an entry that is comparable with all entries of a sorted list.\<close>

lemma insort_right_sorted:
  assumes sorted: "sorted_wrt tuple_lt ds"
    and cmp: "\<forall>e\<in>set ds. tuple_lt e x \<or> tuple_lt x e"
  obtains xs ys where "ds = xs @ ys" and "insort_right tuple_lt ds x = xs @ x # ys"
    and "\<forall>e\<in>set xs. tuple_lt e x" and "\<forall>e\<in>set ys. tuple_lt x e"
proof -
  let ?P = "\<lambda>e. \<not> tuple_lt x e"
  let ?xs = "takeWhile ?P ds" and ?ys = "dropWhile ?P ds"
  have ds: "ds = ?xs @ ?ys" by simp
  have xs: "\<forall>e\<in>set ?xs. \<not> tuple_lt x e" by (auto dest: set_takeWhileD)
  have ys: "\<forall>e\<in>set ?ys. tuple_lt x e"
  proof (cases ?ys)
    case Nil
    show ?thesis unfolding Nil by simp
  next
    case (Cons y ys')
    then have "y = hd ?ys" by simp
    moreover have "?ys \<noteq> []" using Cons by simp
    ultimately have y: "tuple_lt x y" using hd_dropWhile [of ?P ds] by auto
    have "sorted_wrt tuple_lt ?ys" using sorted ds by (metis sorted_wrt_append)
    then have "\<forall>e\<in>set ys'. tuple_lt y e" by (simp add: Cons)
    with y show ?thesis by (auto simp: Cons intro: tuple_lt_trans)
  qed
  have xs': "\<forall>e\<in>set ?xs. tuple_lt e x"
  proof
    fix e assume e: "e \<in> set ?xs"
    then have "e \<in> set ds" by (rule set_takeWhileD [THEN conjunct1])
    with cmp xs e show "tuple_lt e x" by blast
  qed
  have "insort_right tuple_lt (?xs @ ?ys) x = ?xs @ x # ?ys"
    using xs ys by (rule insort_right_split)
  then have ins: "insort_right tuple_lt ds x = ?xs @ x # ?ys" by simp
  from ds ins xs' ys show thesis by (rule that)
qed

lemma sorted_wrt_insert_mid:
  assumes "sorted_wrt tuple_lt (xs @ ys)"
    and "\<forall>e\<in>set xs. tuple_lt e x" and "\<forall>e\<in>set ys. tuple_lt x e"
  shows "sorted_wrt tuple_lt (xs @ x # ys)"
  using assms by (auto simp: sorted_wrt_append)

text \<open>A NaN is smaller than nothing, so \<open>insort\<close> appends it.\<close>

lemma nan_not_lt:
  assumes "is_nan gap" and "\<not> is_nan (fst e)"
  shows "\<not> tuple_lt (gap, name) e"
proof -
  from assms have "gap \<noteq> fst e" by auto
  with float_lt_nan [OF assms(1), of "fst e"] show ?thesis by (simp add: tuple_lt_iff)
qed

lemma insort_right_nan:
  assumes "is_nan gap" and "\<forall>e\<in>set ds. \<not> is_nan (fst e)"
  shows "insort_right tuple_lt ds (gap, name) = ds @ [(gap, name)]"
proof -
  have "\<forall>e\<in>set ds. \<not> tuple_lt (gap, name) e"
  proof
    fix e assume "e \<in> set ds"
    with assms(2) have "\<not> is_nan (fst e)" by simp
    with assms(1) show "\<not> tuple_lt (gap, name) e" by (rule nan_not_lt)
  qed
  then show ?thesis
    using insort_right_split [where xs = ds and ys = "[]" and lt = tuple_lt and x = "(gap, name)"]
    by simp
qed

section \<open>\<open>update\<close> keeps the invariants\<close>

lemma insert_entry_inv:
  assumes strict: "sorted_wrt tuple_lt ds" and dist: "distinct (map snd ds)"
    and fresh: "name \<notin> snd ` set ds"
    and vals: "\<forall>e\<in>set ds. m (snd e) = Some (fst e) \<and> \<not> is_nan (fst e)"
    and keys: "snd ` set ds = dom m - {name}"
    and gap: "\<not> is_nan gap"
  shows "sorted_inv \<lparr>drivers = insort_right tuple_lt ds (gap, name), driver_map = m(name \<mapsto> gap)\<rparr>
       \<and> map_inv \<lparr>drivers = insort_right tuple_lt ds (gap, name), driver_map = m(name \<mapsto> gap)\<rparr>"
proof -
  have cmp: "\<forall>e\<in>set ds. tuple_lt e (gap, name) \<or> tuple_lt (gap, name) e"
  proof
    fix e assume e: "e \<in> set ds"
    with fresh have "e \<noteq> (gap, name)" by force
    moreover from e vals have "\<not> is_nan (fst e)" by simp
    ultimately show "tuple_lt e (gap, name) \<or> tuple_lt (gap, name) e"
      using tuple_lt_total [of e "(gap, name)"] gap by auto
  qed
  show ?thesis
  proof (rule insort_right_sorted [OF strict cmp])
    fix xs ys
    assume ds: "ds = xs @ ys"
      and ins: "insort_right tuple_lt ds (gap, name) = xs @ (gap, name) # ys"
      and lo: "\<forall>e\<in>set xs. tuple_lt e (gap, name)"
      and hi: "\<forall>e\<in>set ys. tuple_lt (gap, name) e"
    have "sorted_wrt tuple_lt (xs @ (gap, name) # ys)"
      using strict lo hi unfolding ds by (rule sorted_wrt_insert_mid)
    then have 1: "sorted_wrt tuple_le (xs @ (gap, name) # ys)" by (rule sorted_lt_le)
    have 2: "distinct (map snd (xs @ (gap, name) # ys))"
      using dist fresh by (auto simp: ds)
    have 3: "snd ` set (xs @ (gap, name) # ys) = dom (m(name \<mapsto> gap))"
      using keys by (auto simp: ds)
    have 4: "\<forall>e\<in>set (xs @ (gap, name) # ys).
               case (m(name \<mapsto> gap)) (snd e) of None \<Rightarrow> False | Some g \<Rightarrow> float_eq (fst e) g"
    proof
      fix e assume "e \<in> set (xs @ (gap, name) # ys)"
      then consider "e = (gap, name)" | "e \<in> set ds" by (auto simp: ds)
      then show "case (m(name \<mapsto> gap)) (snd e) of None \<Rightarrow> False | Some g \<Rightarrow> float_eq (fst e) g"
      proof cases
        case 1
        with gap show ?thesis by (simp add: float_eq_iff)
      next
        case 2
        with fresh have "snd e \<noteq> name" by force
        with 2 vals show ?thesis by (simp add: float_eq_iff)
      qed
    qed
    from 1 2 3 4 show ?thesis by (simp add: sorted_inv_def map_inv_def ins)
  qed
qed

lemma update_inv:
  assumes sorted: "sorted_inv s" and map: "map_inv s" and gap: "\<not> is_nan gap"
  shows "\<exists>s'. update s name gap = Inr s' \<and> sorted_inv s' \<and> map_inv s'"
proof -
  have dist: "distinct (map snd (drivers s))" using map by (simp add: map_inv_def)
  have keys: "snd ` set (drivers s) = dom (driver_map s)" using map by (simp add: map_inv_def)
  note strict = strict_inv [OF sorted map]
  have vals: "\<forall>e\<in>set (drivers s). driver_map s (snd e) = Some (fst e) \<and> \<not> is_nan (fst e)"
    using map_inv_lookup [OF map] by blast
  show ?thesis
  proof (cases "driver_map s name")
    case None
    then have fresh: "name \<notin> snd ` set (drivers s)" using keys by auto
    then have "snd ` set (drivers s) = dom (driver_map s) - {name}" using keys by auto
    from insert_entry_inv [OF strict dist fresh vals this gap] None
    show ?thesis by (simp add: update_def)
  next
    case (Some old)
    from map_inv_member [OF map Some] have mem: "(old, name) \<in> set (drivers s)" .
    show ?thesis
    proof (rule split_at_entry [OF strict dist mem])
      fix xs ys
      assume a: "drivers s = xs @ (old, name) # ys"
        and lo: "\<forall>e\<in>set xs. tuple_lt e (old, name)"
        and hi: "\<forall>e\<in>set ys. tuple_lt (old, name) e"
        and nx: "snd (old, name) \<notin> snd ` set xs" and ny: "snd (old, name) \<notin> snd ` set ys"
      have b: "bisect_left tuple_lt (drivers s) (old, name) 0 (length (drivers s)) = length xs"
        unfolding a by (rule bisect_left_finds [OF lo hi])
      have p: "pop (drivers s) (length xs) = Inr (xs @ ys)"
        unfolding a by (rule pop_split)
      have strict': "sorted_wrt tuple_lt (xs @ ys)"
        using strict by (auto simp: a sorted_wrt_append)
      have dist': "distinct (map snd (xs @ ys))" using dist by (auto simp: a)
      have fresh': "name \<notin> snd ` set (xs @ ys)" using nx ny by auto
      have vals': "\<forall>e\<in>set (xs @ ys). driver_map s (snd e) = Some (fst e) \<and> \<not> is_nan (fst e)"
        using vals by (auto simp: a)
      have keys': "snd ` set (xs @ ys) = dom (driver_map s) - {name}"
        using keys nx ny by (auto simp: a)
      from insert_entry_inv [OF strict' dist' fresh' vals' keys' gap]
      show ?thesis by (simp add: update_def Some b p)
    qed
  qed
qed

section \<open>Removal keeps the invariants\<close>

lemma find_idx_split:
  assumes "name \<notin> snd ` set xs" and "float_eq g g'"
  shows "find_idx (xs @ (g, name) # ys) name g' i = Some (i + length xs)"
  using assms by (induction xs arbitrary: i) auto

lemma find_idx_iters_split:
  assumes "name \<notin> snd ` set xs" and "float_eq g g'"
  shows "find_idx_iters (xs @ (g, name) # ys) name g' = length xs + 1"
  using assms by (induction xs) auto

lemma remove_absent:
  assumes "driver_map s name = None"
  shows "module_4_remove_driver s name confirm = Inr (NoDrivers, s)
       \<or> module_4_remove_driver s name confirm = Inr (NotFound, s)"
  using assms by (simp add: module_4_remove_driver_def)

lemma remove_present:
  assumes map: "map_inv s" and m: "driver_map s name = Some gap"
  shows "module_4_remove_driver s name ''y'' =
           Inr (Removed, \<lparr>drivers = remove1 (gap, name) (drivers s),
                          driver_map = (driver_map s)(name := None)\<rparr>)"
proof -
  from map_inv_member [OF map m] have mem: "(gap, name) \<in> set (drivers s)" .
  then obtain xs ys where a: "drivers s = xs @ (gap, name) # ys" by (auto dest: split_list)
  have dist: "distinct (map snd (drivers s))" using map by (simp add: map_inv_def)
  then have nx: "name \<notin> snd ` set xs" by (auto simp: a)
  have "\<not> is_nan gap" using map_inv_lookup [OF map mem] by simp
  then have "float_eq gap gap" by (simp add: float_eq_iff)
  with nx have f: "find_idx (drivers s) name gap 0 = Some (length xs)"
    unfolding a by (simp add: find_idx_split)
  have p: "pop (drivers s) (length xs) = Inr (xs @ ys)"
    unfolding a by (rule pop_split)
  have "(gap, name) \<notin> set xs" using nx by force
  then have r: "remove1 (gap, name) (drivers s) = xs @ ys"
    by (simp add: a remove1_append)
  have "dom (driver_map s) \<noteq> {}" using m by auto
  then show ?thesis by (simp add: module_4_remove_driver_def m f p r)
qed

lemma remove_inv:
  assumes sorted: "sorted_inv s" and map: "map_inv s"
  shows "\<exists>out s'. module_4_remove_driver s name ''y'' = Inr (out, s')
           \<and> sorted_inv s' \<and> map_inv s'"
proof (cases "driver_map s name")
  case None
  with remove_absent [OF None, of "''y''"] assms show ?thesis by auto
next
  case (Some gap)
  have dist: "distinct (map snd (drivers s))" using map by (simp add: map_inv_def)
  have keys: "snd ` set (drivers s) = dom (driver_map s)" using map by (simp add: map_inv_def)
  from map_inv_member [OF map Some] have mem: "(gap, name) \<in> set (drivers s)" .
  then obtain xs ys where a: "drivers s = xs @ (gap, name) # ys" by (auto dest: split_list)
  have nx: "name \<notin> snd ` set xs" and ny: "name \<notin> snd ` set ys" using dist by (auto simp: a)
  then have "(gap, name) \<notin> set xs" by force
  then have r: "remove1 (gap, name) (drivers s) = xs @ ys"
    by (simp add: a remove1_append)
  have 1: "sorted_wrt tuple_le (xs @ ys)"
    using sorted by (auto simp: sorted_inv_def a sorted_wrt_append)
  have 2: "distinct (map snd (xs @ ys))" using dist by (auto simp: a)
  have 3: "snd ` set (xs @ ys) = dom ((driver_map s)(name := None))"
    using keys nx ny by (auto simp: a)
  have 4: "\<forall>e\<in>set (xs @ ys).
             case ((driver_map s)(name := None)) (snd e) of None \<Rightarrow> False
             | Some g \<Rightarrow> float_eq (fst e) g"
  proof
    fix e assume e: "e \<in> set (xs @ ys)"
    with nx ny have "snd e \<noteq> name" by force
    moreover from e have "e \<in> set (drivers s)" by (auto simp: a)
    ultimately show "case ((driver_map s)(name := None)) (snd e) of None \<Rightarrow> False
                     | Some g \<Rightarrow> float_eq (fst e) g"
      using map_inv_lookup [OF map] by (simp add: float_eq_iff)
  qed
  from 1 2 3 4 show ?thesis
    by (simp add: remove_present [OF map Some] r sorted_inv_def map_inv_def)
qed

section \<open>Runs\<close>

lemma apply_op_inv:
  assumes "sorted_inv s" and "map_inv s" and "nan_free x"
  shows "\<exists>s'. apply_op s x = Inr s' \<and> sorted_inv s' \<and> map_inv s'"
proof (cases x)
  case (Upsert name gap)
  with assms update_inv [of s gap name] show ?thesis by simp
next
  case (Remove name)
  from remove_inv [OF assms(1,2), of name] obtain out s' where
    "module_4_remove_driver s name ''y'' = Inr (out, s')" "sorted_inv s'" "map_inv s'" by blast
  with Remove show ?thesis by simp
qed

lemma run_inv:
  assumes "sorted_inv s" and "map_inv s" and "\<forall>x\<in>set ops. nan_free x"
  shows "\<exists>s'. run s ops = Inr s' \<and> sorted_inv s' \<and> map_inv s'"
  using assms
proof (induction ops arbitrary: s)
  case Nil
  then show ?case by simp
next
  case (Cons x ops)
  then have "nan_free x" by simp
  from apply_op_inv [OF Cons.prems(1,2) this] obtain s1 where
    s1: "apply_op s x = Inr s1" "sorted_inv s1" "map_inv s1" by blast
  from Cons.IH [OF s1(2,3)] Cons.prems(3) s1(1) show ?case by simp
qed

lemma init_inv: "sorted_inv init \<and> map_inv init"
  by (simp add: init_def sorted_inv_def map_inv_def)

section \<open>Evaluating the examples\<close>

lemmas eval_defs = update_def get_rank_def top_k_def slice_to_def insort_right_def list_insert_def
  pop_def tuple_lt_def tuple_le_def same_or_eq_def init_def module_4_remove_driver_def
  bisect_left.simps bisect_right.simps enumerate_eq_zip

lemma demo_sorted: "sorted_inv demo"
  by (simp add: demo_def sorted_inv_def tuple_le_def same_or_eq_def)

lemma demo_map: "map_inv demo"
  by (auto simp: demo_def map_inv_def)

section \<open>Rank\<close>

text \<open>
  Claim C1. In a state that satisfies the ordering and the bijection invariant,
  \<open>get_rank\<close> returns \<open>None\<close> for a name that is not in the index, and for a name
  that is in the index it returns 1 plus the number of entries that are strictly smaller
  than the entry of that name, in the order by gap first and name second.
\<close>

theorem get_rank_correct:
  assumes "sorted_inv s" and "map_inv s"
  shows "(driver_map s name = None \<longrightarrow> get_rank s name = None) \<and>
         (\<forall>gap. driver_map s name = Some gap \<longrightarrow>
            get_rank s name = Some (1 + count_before s (gap, name)))"
proof (intro conjI allI impI)
  assume "driver_map s name = None"
  then show "get_rank s name = None" by (simp add: get_rank_def)
next
  fix gap assume m: "driver_map s name = Some gap"
  have dist: "distinct (map snd (drivers s))" using assms(2) by (simp add: map_inv_def)
  note strict = strict_inv [OF assms]
  from map_inv_member [OF assms(2) m] have mem: "(gap, name) \<in> set (drivers s)" .
  show "get_rank s name = Some (1 + count_before s (gap, name))"
  proof (rule split_at_entry [OF strict dist mem])
    fix xs ys
    assume a: "drivers s = xs @ (gap, name) # ys"
      and lo: "\<forall>e\<in>set xs. tuple_lt e (gap, name)"
      and hi: "\<forall>e\<in>set ys. tuple_lt (gap, name) e"
    have "bisect_left tuple_lt (drivers s) (gap, name) 0 (length (drivers s)) = length xs"
      unfolding a by (rule bisect_left_finds [OF lo hi])
    moreover have "count_before s (gap, name) = length xs"
      unfolding count_before_def a by (rule count_before_split [OF lo hi])
    ultimately show ?thesis
      using m by (simp add: get_rank_def)
  qed
qed

theorem get_rank_correct_witness:
  "sorted_inv demo \<and> map_inv demo \<and>
   driver_map demo ''HAM'' = None \<and> get_rank demo ''HAM'' = None \<and>
   driver_map demo ''VER'' = Some (Fin 12.252) \<and>
   get_rank demo ''VER'' = Some (1 + count_before demo (Fin 12.252, ''VER''))"
  using get_rank_correct [OF demo_sorted demo_map, of "''HAM''"]
    get_rank_correct [OF demo_sorted demo_map, of "''VER''"] demo_sorted demo_map
  by (simp add: demo_def)

section \<open>Top k\<close>

lemma length_slice_to:
  "length (slice_to a k) = (if k < 0 then nat (int (length a) + k) else min (nat k) (length a))"
  by (cases "k < 0") (simp_all add: slice_to_def min.commute)

lemma top_k_rows: "top_k s k = map (row s) [0..<length (slice_to (drivers s) k)]"
proof (rule nth_equalityI)
  show "length (top_k s k) = length (map (row s) [0..<length (slice_to (drivers s) k)])"
    by (simp add: top_k_def)
next
  fix i assume "i < length (top_k s k)"
  then have i: "i < length (slice_to (drivers s) k)" by (simp add: top_k_def)
  then have "slice_to (drivers s) k ! i = drivers s ! i"
    by (simp add: slice_to_def split: if_splits)
  with i show "top_k s k ! i = map (row s) [0..<length (slice_to (drivers s) k)] ! i"
    by (simp add: top_k_def row_def nth_enumerate_eq case_prod_beta)
qed

text \<open>
  Claim C2. For \<open>0 \<le> k \<le> size\<close>, \<open>top_k(k)\<close> is the list of the first \<open>k\<close>
  entries of \<open>drivers\<close>, in their order, each as the triple of its rank (1 to \<open>k\<close>),
  its name and its gap. For \<open>k\<close> greater than the size it is the list of all entries,
  in the same form.
\<close>

theorem top_k_prefix:
  "(0 \<le> k \<and> k \<le> int (length (drivers s)) \<longrightarrow> top_k s k = map (row s) [0..<nat k]) \<and>
   (int (length (drivers s)) < k \<longrightarrow> top_k s k = map (row s) [0..<length (drivers s)])"
proof (intro conjI impI)
  assume "0 \<le> k \<and> k \<le> int (length (drivers s))"
  then have "min (nat k) (length (drivers s)) = nat k" and "\<not> k < 0" by linarith+
  then show "top_k s k = map (row s) [0..<nat k]"
    by (simp add: top_k_rows length_slice_to)
next
  assume "int (length (drivers s)) < k"
  then have "min (nat k) (length (drivers s)) = length (drivers s)" and "\<not> k < 0" by linarith+
  then show "top_k s k = map (row s) [0..<length (drivers s)]"
    by (simp add: top_k_rows length_slice_to)
qed

theorem top_k_prefix_witness:
  "(0::int) \<le> 3 \<and> 3 \<le> int (length (drivers demo)) \<and> top_k demo 3 = map (row demo) [0..<nat 3] \<and>
   int (length (drivers demo)) < 7 \<and> top_k demo 7 = map (row demo) [0..<length (drivers demo)]"
  using top_k_prefix [of 3 demo] top_k_prefix [of 7 demo] by (simp add: demo_def)

text \<open>
  Claim C10. For a negative \<open>k\<close>, \<open>top_k(k)\<close> raises nothing and is the list of the
  first \<open>max(0, size - |k|)\<close> entries of \<open>drivers\<close>, with ranks from 1: on a
  non-empty index these are fewer than all entries.
\<close>

theorem top_k_negative:
  assumes "k < 0"
  shows "top_k s k = map (row s) [0..<nat (max 0 (int (length (drivers s)) - \<bar>k\<bar>))] \<and>
         (drivers s \<noteq> [] \<longrightarrow> length (top_k s k) < length (drivers s))"
proof
  note k = assms
  then have "nat (int (length (drivers s)) + k) = nat (max 0 (int (length (drivers s)) - \<bar>k\<bar>))"
    by linarith
  with k show "top_k s k = map (row s) [0..<nat (max 0 (int (length (drivers s)) - \<bar>k\<bar>))]"
    by (simp add: top_k_rows length_slice_to)
  show "drivers s \<noteq> [] \<longrightarrow> length (top_k s k) < length (drivers s)"
  proof
    assume "drivers s \<noteq> []"
    then have "0 < length (drivers s)" by simp
    with k have "nat (int (length (drivers s)) + k) < length (drivers s)" by linarith
    with k show "length (top_k s k) < length (drivers s)"
      by (simp add: top_k_rows length_slice_to)
  qed
qed

theorem top_k_negative_witness:
  "(-2::int) < 0 \<and> drivers demo \<noteq> [] \<and>
   top_k demo (-2) = map (row demo) [0..<nat (max 0 (int (length (drivers demo)) - \<bar>-2\<bar>))] \<and>
   length (top_k demo (-2)) < length (drivers demo)"
  using top_k_negative [of "-2" demo] by (simp add: demo_def)

text \<open>
  Claim C8. From the empty index, the five updates of the demo give rank 1 to \<open>LEC\<close>
  and the top three \<open>LEC\<close>, \<open>SAI\<close>, \<open>VER\<close> with their gaps; after
  \<open>update('VER', 11.500)\<close> the rank of \<open>VER\<close> is 2 and the rank of \<open>SAI\<close> is 3.
\<close>

theorem five_driver_scenario:
  "run init demo_ops = Inr demo \<and>
   get_rank demo ''LEC'' = Some 1 \<and>
   top_k demo 3 = [(1, ''LEC'', Fin 0.0), (2, ''SAI'', Fin 11.850), (3, ''VER'', Fin 12.252)] \<and>
   update demo ''VER'' (Fin 11.500) = Inr overtake \<and>
   get_rank overtake ''VER'' = Some 2 \<and>
   get_rank overtake ''SAI'' = Some 3"
proof (intro conjI)
  show "run init demo_ops = Inr demo"
    by (simp add: demo_ops_def demo_def eval_defs)
  show "get_rank demo ''LEC'' = Some 1"
    by (simp add: demo_def eval_defs)
  show "top_k demo 3 = [(1, ''LEC'', Fin 0.0), (2, ''SAI'', Fin 11.850), (3, ''VER'', Fin 12.252)]"
    by (simp add: demo_def eval_defs)
  show "update demo ''VER'' (Fin 11.500) = Inr overtake"
    by (simp add: demo_def overtake_def eval_defs fun_eq_iff)
  show "get_rank overtake ''VER'' = Some 2"
    by (simp add: overtake_def eval_defs)
  show "get_rank overtake ''SAI'' = Some 3"
    by (simp add: overtake_def eval_defs)
qed

section \<open>The invariants along a run\<close>

text \<open>
  As long as no update is given a NaN, no operation raises and both invariants hold
  after every step of a run from the empty index.
\<close>

lemma nan_free_run_inv:
  assumes "list_all nan_free ops"
  shows "\<exists>s. run init (take n ops) = Inr s \<and> sorted_inv s \<and> map_inv s"
proof -
  have "\<forall>x\<in>set (take n ops). nan_free x"
    using assms by (auto simp: list_all_iff dest: in_set_takeD)
  with run_inv [of init "take n ops"] init_inv show ?thesis by blast
qed

text \<open>
  Claim C3. After every sequence of updates and removals from the empty index,
  \<open>drivers\<close> is sorted in non-decreasing order of gap and name. The code announces
  this (\<open>drivers\<close> is "kept sorted", \<open>insort\<close> "maintains sorted order") and does
  not keep it: \<open>update\<close> takes a NaN as it takes any float, \<open>insort\<close> puts it at
  the end since it is smaller than nothing, and the next entry is put behind it,
  whatever its gap. After \<open>update('SAI', 3.0)\<close>, \<open>update('VER', nan)\<close>,
  \<open>update('LEC', 1.0)\<close> the entry of \<open>LEC\<close> stands behind the greater entry of
  \<open>SAI\<close>.
\<close>

theorem ordering_broken_by_nan:
  "run init nan_ops = Inr unsorted \<and>
   drivers unsorted = [(Fin 3, ''SAI''), (NaN 0, ''VER''), (Fin 1, ''LEC'')] \<and>
   tuple_lt (Fin 1, ''LEC'') (Fin 3, ''SAI'') \<and>
   \<not> sorted_inv unsorted"
  by (simp add: nan_ops_def unsorted_def sorted_inv_def eval_defs)

text \<open>
  Claim C4. After every sequence of operations the names in \<open>drivers\<close> are the keys
  of \<open>driver_map\<close>, each name occurs once, and its gap in \<open>drivers\<close> equals its
  gap in \<open>driver_map\<close>. The code does not keep this: in the unsorted list above the
  binary search of \<open>update('LEC', 0.0)\<close>, which is to "remove old entry if exists",
  returns index 0 and the entry of \<open>SAI\<close> is popped in place of the old entry of
  \<open>LEC\<close>. \<open>SAI\<close> is then a key of the map without an entry, \<open>LEC\<close> has two
  entries, and the next update of \<open>SAI\<close> raises \<open>IndexError\<close>.
\<close>

theorem bijection_broken_by_nan:
  "run init (nan_ops @ [Upsert ''LEC'' (Fin 0)]) = Inr broken \<and>
   drivers broken = [(NaN 0, ''VER''), (Fin 0, ''LEC''), (Fin 1, ''LEC'')] \<and>
   driver_map broken ''SAI'' = Some (Fin 3) \<and>
   ''SAI'' \<notin> snd ` set (drivers broken) \<and>
   \<not> distinct (map snd (drivers broken)) \<and>
   update broken ''SAI'' (Fin 2) = Inl IndexError"
  by (simp add: nan_ops_def broken_def eval_defs)

section \<open>Scores that are not numbers\<close>

text \<open>
  Claim C5, as amended. \<open>update\<close> does not look at the score it is given and has no
  error for it: in a state that satisfies the invariants, an update with a NaN returns
  normally, drops the old entry of the name if there is one, appends the new entry at
  the end of \<open>drivers\<close> and stores the NaN in \<open>driver_map\<close>.
\<close>

theorem update_nan_applied:
  assumes sorted: "sorted_inv s" and map: "map_inv s" and gap: "is_nan gap"
  shows "update s name gap =
           Inr \<lparr>drivers = filter (\<lambda>e. snd e \<noteq> name) (drivers s) @ [(gap, name)],
                driver_map = (driver_map s)(name \<mapsto> gap)\<rparr>"
proof -
  have dist: "distinct (map snd (drivers s))" using map by (simp add: map_inv_def)
  have keys: "snd ` set (drivers s) = dom (driver_map s)" using map by (simp add: map_inv_def)
  note strict = strict_inv [OF sorted map]
  have nn: "\<forall>e\<in>set (drivers s). \<not> is_nan (fst e)"
    using map_inv_lookup [OF map] by blast
  show ?thesis
  proof (cases "driver_map s name")
    case None
    then have "name \<notin> snd ` set (drivers s)" using keys by auto
    then have "filter (\<lambda>e. snd e \<noteq> name) (drivers s) = drivers s"
      by (auto simp: filter_id_conv)
    with None insort_right_nan [OF gap nn, of name] show ?thesis
      by (simp add: update_def)
  next
    case (Some old)
    from map_inv_member [OF map Some] have mem: "(old, name) \<in> set (drivers s)" .
    show ?thesis
    proof (rule split_at_entry [OF strict dist mem])
      fix xs ys
      assume a: "drivers s = xs @ (old, name) # ys"
        and lo: "\<forall>e\<in>set xs. tuple_lt e (old, name)"
        and hi: "\<forall>e\<in>set ys. tuple_lt (old, name) e"
        and nx: "snd (old, name) \<notin> snd ` set xs" and ny: "snd (old, name) \<notin> snd ` set ys"
      have b: "bisect_left tuple_lt (drivers s) (old, name) 0 (length (drivers s)) = length xs"
        unfolding a by (rule bisect_left_finds [OF lo hi])
      have p: "pop (drivers s) (length xs) = Inr (xs @ ys)"
        unfolding a by (rule pop_split)
      have "filter (\<lambda>e. snd e \<noteq> name) xs = xs" and "filter (\<lambda>e. snd e \<noteq> name) ys = ys"
        using nx ny by (auto simp: filter_id_conv)
      then have f: "filter (\<lambda>e. snd e \<noteq> name) (drivers s) = xs @ ys" by (simp add: a)
      have "\<forall>e\<in>set (xs @ ys). \<not> is_nan (fst e)" using nn by (auto simp: a)
      from insort_right_nan [OF gap this, of name] show ?thesis
        by (simp add: update_def Some b p f)
    qed
  qed
qed

theorem update_nan_applied_witness:
  "sorted_inv demo \<and> map_inv demo \<and> is_nan (NaN 0) \<and>
   update demo ''VER'' (NaN 0) =
     Inr \<lparr>drivers = filter (\<lambda>e. snd e \<noteq> ''VER'') (drivers demo) @ [(NaN 0, ''VER'')],
          driver_map = (driver_map demo)(''VER'' \<mapsto> NaN 0)\<rparr>"
  using update_nan_applied [OF demo_sorted demo_map, of "NaN 0" "''VER''"] demo_sorted demo_map
  by simp

text \<open>
  Claim C5 as stated fails: on the demo, \<open>update('VER', nan)\<close> returns without an
  error and leaves another index, with \<open>VER\<close> in the last place.
\<close>

theorem invalid_score_counterexample:
  "update demo ''VER'' (NaN 0) =
     Inr \<lparr>drivers = [(Fin 0.0, ''LEC''), (Fin 11.850, ''SAI''), (Fin 14.777, ''PER''),
                     (Fin 16.347, ''BOT''), (NaN 0, ''VER'')],
          driver_map = (driver_map demo)(''VER'' \<mapsto> NaN 0)\<rparr> \<and>
   update demo ''VER'' (NaN 0) \<noteq> Inr demo"
  by (simp add: demo_def eval_defs)

section \<open>Removal\<close>

text \<open>
  Removing a name that is not in the index reports no success and leaves the index as
  it is, in every state. In a state that satisfies the bijection invariant, removing a
  name that is in the index (and confirming) reports success, deletes the one entry of
  that name from \<open>drivers\<close>, which gets shorter by one, and deletes the name from
  \<open>driver_map\<close>.
\<close>

lemma remove_on_valid_state:
  "(driver_map s name = None \<longrightarrow>
      (\<exists>out. module_4_remove_driver s name confirm = Inr (out, s) \<and> out \<noteq> Removed)) \<and>
   (map_inv s \<longrightarrow> (\<forall>gap. driver_map s name = Some gap \<longrightarrow>
      module_4_remove_driver s name ''y'' =
        Inr (Removed, \<lparr>drivers = remove1 (gap, name) (drivers s),
                       driver_map = (driver_map s)(name := None)\<rparr>) \<and>
      name \<notin> snd ` set (remove1 (gap, name) (drivers s)) \<and>
      length (remove1 (gap, name) (drivers s)) + 1 = length (drivers s)))"
proof (intro conjI impI allI)
  assume "driver_map s name = None"
  from remove_absent [OF this, of confirm]
  show "\<exists>out. module_4_remove_driver s name confirm = Inr (out, s) \<and> out \<noteq> Removed"
    by auto
next
  fix gap assume map: "map_inv s" and m: "driver_map s name = Some gap"
  show "module_4_remove_driver s name ''y'' =
        Inr (Removed, \<lparr>drivers = remove1 (gap, name) (drivers s),
                       driver_map = (driver_map s)(name := None)\<rparr>)"
    by (rule remove_present [OF map m])
  from map_inv_member [OF map m] have mem: "(gap, name) \<in> set (drivers s)" .
  then show "length (remove1 (gap, name) (drivers s)) + 1 = length (drivers s)"
    by (simp add: length_remove1) (cases "drivers s"; simp)
  have dist: "distinct (map snd (drivers s))" using map by (simp add: map_inv_def)
  from mem obtain xs ys where a: "drivers s = xs @ (gap, name) # ys" by (auto dest: split_list)
  have nx: "name \<notin> snd ` set xs" and ny: "name \<notin> snd ` set ys" using dist by (auto simp: a)
  then have "(gap, name) \<notin> set xs" by force
  then have "remove1 (gap, name) (drivers s) = xs @ ys" by (simp add: a remove1_append)
  with nx ny show "name \<notin> snd ` set (remove1 (gap, name) (drivers s))" by auto
qed

text \<open>
  Claim C6. In every state of the index, removing an absent name changes nothing and
  reports no success, and removing a name that is in the index deletes its entry and
  its key and reports success. The second half fails for a driver whose gap is a NaN:
  the loop tests \<open>g == gap\<close>, which is false for a NaN even against itself, so it
  never breaks, and the function prints \<open>Error removing driver\<close> and removes
  nothing. On the demo after \<open>update('VER', nan)\<close>, \<open>VER\<close> is a key of the map
  and has one entry, and cannot be removed.
\<close>

theorem remove_misses_nan_entry:
  "update demo ''VER'' (NaN 0) = Inr nan_demo \<and>
   driver_map nan_demo ''VER'' = Some (NaN 0) \<and>
   filter (\<lambda>e. snd e = ''VER'') (drivers nan_demo) = [(NaN 0, ''VER'')] \<and>
   module_4_remove_driver nan_demo ''VER'' ''y'' = Inr (ErrorRemoving, nan_demo)"
proof (intro conjI)
  show "update demo ''VER'' (NaN 0) = Inr nan_demo"
    by (simp add: demo_def nan_demo_def eval_defs fun_eq_iff)
  show "driver_map nan_demo ''VER'' = Some (NaN 0)"
    by (simp add: nan_demo_def)
  show "filter (\<lambda>e. snd e = ''VER'') (drivers nan_demo) = [(NaN 0, ''VER'')]"
    by (simp add: nan_demo_def)
  show "module_4_remove_driver nan_demo ''VER'' ''y'' = Inr (ErrorRemoving, nan_demo)"
    by (simp add: nan_demo_def module_4_remove_driver_def)
qed

section \<open>Updating with the same score\<close>

text \<open>
  In a state that satisfies both invariants, an update of a name that is in the index
  with the gap it already has returns the state it started from.
\<close>

lemma noop_update_on_valid_state:
  assumes "sorted_inv s" and "map_inv s" and m: "driver_map s name = Some gap"
  shows "update s name gap = Inr s"
proof -
  have dist: "distinct (map snd (drivers s))" using assms(2) by (simp add: map_inv_def)
  note strict = strict_inv [OF assms(1,2)]
  from map_inv_member [OF assms(2) m] have mem: "(gap, name) \<in> set (drivers s)" .
  show ?thesis
  proof (rule split_at_entry [OF strict dist mem])
    fix xs ys
    assume a: "drivers s = xs @ (gap, name) # ys"
      and lo: "\<forall>e\<in>set xs. tuple_lt e (gap, name)"
      and hi: "\<forall>e\<in>set ys. tuple_lt (gap, name) e"
    have b: "bisect_left tuple_lt (drivers s) (gap, name) 0 (length (drivers s)) = length xs"
      unfolding a by (rule bisect_left_finds [OF lo hi])
    have p: "pop (drivers s) (length xs) = Inr (xs @ ys)"
      unfolding a by (rule pop_split)
    have "\<forall>e\<in>set xs. \<not> tuple_lt (gap, name) e" using lo by (auto dest: tuple_lt_asym)
    then have i: "insort_right tuple_lt (xs @ ys) (gap, name) = drivers s"
      using hi unfolding a by (rule insort_right_split)
    have "(driver_map s)(name \<mapsto> gap) = driver_map s" using m by (rule map_upd_triv)
    then show ?thesis by (simp add: update_def m b p i)
  qed
qed

text \<open>
  Claim C7. In every state of the index, an update of a name that is in the index with
  the gap it already has leaves rank, size and the order of \<open>drivers\<close> as they are.
  The code does not do so in the unsorted state that a NaN leaves behind: there the
  binary search of \<open>update('LEC', 1.0)\<close> returns index 0, the entry of \<open>SAI\<close> is
  popped in place of the entry of \<open>LEC\<close>, and \<open>LEC\<close> is inserted a second time.
\<close>

theorem noop_update_pops_other_entry:
  "run init nan_ops = Inr unsorted \<and>
   driver_map unsorted ''LEC'' = Some (Fin 1) \<and>
   update unsorted ''LEC'' (Fin 1) = Inr doubled \<and>
   drivers unsorted = [(Fin 3, ''SAI''), (NaN 0, ''VER''), (Fin 1, ''LEC'')] \<and>
   drivers doubled = [(NaN 0, ''VER''), (Fin 1, ''LEC''), (Fin 1, ''LEC'')] \<and>
   doubled \<noteq> unsorted"
proof (intro conjI)
  show "run init nan_ops = Inr unsorted"
    by (simp add: nan_ops_def unsorted_def eval_defs)
  show "driver_map unsorted ''LEC'' = Some (Fin 1)"
    by (simp add: unsorted_def)
  show "update unsorted ''LEC'' (Fin 1) = Inr doubled"
    by (simp add: unsorted_def doubled_def eval_defs)
  show "drivers unsorted = [(Fin 3, ''SAI''), (NaN 0, ''VER''), (Fin 1, ''LEC'')]"
    by (simp add: unsorted_def)
  show "drivers doubled = [(NaN 0, ''VER''), (Fin 1, ''LEC''), (Fin 1, ''LEC'')]"
    by (simp add: doubled_def)
  have "drivers doubled \<noteq> drivers unsorted" by (simp add: unsorted_def doubled_def)
  then show "doubled \<noteq> unsorted" by auto
qed

section \<open>The cost of a removal\<close>

text \<open>
  Claim C9 asks for a removal in logarithmic time. The loop that looks for the entry
  starts at the head of \<open>drivers\<close>: in every non-empty state that satisfies the
  bijection invariant, removing the driver in the last place makes it break at the last
  index only, after as many iterations as there are entries.
\<close>

theorem remove_scan_linear:
  assumes map: "map_inv s" and ne: "drivers s \<noteq> []"
  shows "driver_map s (snd (last (drivers s))) = Some (fst (last (drivers s))) \<and>
         find_idx (drivers s) (snd (last (drivers s))) (fst (last (drivers s))) 0
           = Some (length (drivers s) - 1) \<and>
         find_idx_iters (drivers s) (snd (last (drivers s))) (fst (last (drivers s)))
           = length (drivers s)"
proof -
  let ?e = "last (drivers s)" and ?xs = "butlast (drivers s)"
  have mem: "?e \<in> set (drivers s)" using ne by simp
  from map_inv_lookup [OF map mem]
  have m: "driver_map s (snd ?e) = Some (fst ?e)" and nn: "\<not> is_nan (fst ?e)" by simp_all
  have eq: "float_eq (fst ?e) (fst ?e)" using nn by (simp add: float_eq_iff)
  have "distinct (map snd (drivers s))" using map by (simp add: map_inv_def)
  then have "distinct (map snd (?xs @ [?e]))" using ne by simp
  then have nx: "snd ?e \<notin> snd ` set ?xs" by auto
  have "find_idx (?xs @ (fst ?e, snd ?e) # []) (snd ?e) (fst ?e) 0 = Some (0 + length ?xs)"
    using nx eq by (rule find_idx_split)
  then have 1: "find_idx (drivers s) (snd ?e) (fst ?e) 0 = Some (length (drivers s) - 1)"
    using ne by simp
  have "find_idx_iters (?xs @ (fst ?e, snd ?e) # []) (snd ?e) (fst ?e) = length ?xs + 1"
    using nx eq by (rule find_idx_iters_split)
  then have 2: "find_idx_iters (drivers s) (snd ?e) (fst ?e) = length (drivers s)"
    using ne by simp
  from m 1 2 show ?thesis by simp
qed

theorem remove_scan_linear_witness:
  "map_inv demo \<and> drivers demo \<noteq> [] \<and>
   find_idx (drivers demo) ''BOT'' (Fin 16.347) 0 = Some 4 \<and>
   find_idx_iters (drivers demo) ''BOT'' (Fin 16.347) = 5"
  using remove_scan_linear [OF demo_map] demo_map by (simp add: demo_def)

end
